theory Spec2Isabelle
  imports Main "HOL-Library.Word" "HOL-Library.Signed_Division" "HOL-Library.Multiset"
begin

section \<open>Grayscale conversion by a parallel map over a 2D range\<close>

text \<open>
  A shallow embedding of \<^verbatim>\<open>grayscaleConversion\<close> of
  \<^verbatim>\<open>MapGrayscaleConv/MapGrayscaleConv.cpp\<close>:
  \<^verbatim>\<open>
  void grayscaleConversion(Mat& input, Mat& output) {
      parallel_for(blocked_range2d<int>(0, input.rows, 0, input.cols),
          [&](const blocked_range2d<int>& r) {
              for (int i = r.rows().begin(); i < r.rows().end(); ++i) {
                  for (int j = r.cols().begin(); j < r.cols().end(); ++j) {
                      Vec3b intensity = input.at<Vec3b>(i, j);
                      int gray_value = (intensity[0] + intensity[1] + intensity[2]) / 3;
                      output.at<uchar>(i, j) = static_cast<uchar>(gray_value);
                  }
              }
          }
      );
  }
  \<close>
\<close>

subsection \<open>The arithmetic of one pixel\<close>

text \<open>
  A channel is an \<^verbatim>\<open>uchar\<close>, a pixel a \<^verbatim>\<open>Vec3b\<close> of three of them.
  In \<^verbatim>\<open>intensity[0] + intensity[1] + intensity[2]\<close> every operand is promoted to
  \<^verbatim>\<open>int\<close>, a 32-bit two's complement integer: the sum and the quotient are 32-bit
  words, \<open>+\<close> wraps around, and \<^verbatim>\<open>/\<close> is the signed division that truncates towards
  zero. The cast \<^verbatim>\<open>static_cast<uchar>\<close> keeps the low eight bits.
\<close>

type_synonym uchar = "8 word"
type_synonym c_int = "32 word"
type_synonym Vec3b = "uchar \<times> uchar \<times> uchar"

definition promote :: "uchar \<Rightarrow> c_int" where
  "promote c = ucast c"

definition int_div :: "c_int \<Rightarrow> c_int \<Rightarrow> c_int" where
  "int_div a b = word_of_int (sint a sdiv sint b)"

definition channel_sum :: "Vec3b \<Rightarrow> c_int" where
  "channel_sum intensity =
     (case intensity of (c0, c1, c2) \<Rightarrow> promote c0 + promote c1 + promote c2)"

definition gray_value :: "Vec3b \<Rightarrow> c_int" where
  "gray_value intensity = int_div (channel_sum intensity) 3"

definition toGray :: "Vec3b \<Rightarrow> uchar" where
  "toGray intensity = ucast (gray_value intensity)"

subsection \<open>Matrices\<close>

text \<open>
  A \<^verbatim>\<open>cv::Mat\<close> as the program creates them (\<^verbatim>\<open>imread\<close>, and
  \<^verbatim>\<open>Mat(rows, cols, CV_8UC1)\<close>): \<open>rows\<close>, \<open>cols\<close> and one buffer holding the
  elements row after row, element \<open>(i, j)\<close> at offset \<open>i * cols + j\<close>. The sizes are
  never negative, so they are natural numbers here, and so are the loop indices, which
  start at 0 and only count upwards.

  \<^verbatim>\<open>Mat::at\<close> asserts that the coordinate lies inside the matrix (a debug assertion
  of the library; an access outside is undefined otherwise). The model returns
  \<open>OutOfRange\<close> there, for the read and for the write.
\<close>

datatype error = OutOfRange

record 'a Mat =
  rows :: nat
  cols :: nat
  data :: "'a list"

definition allocated :: "'a Mat \<Rightarrow> bool" where
  "allocated m \<longleftrightarrow> length (data m) = rows m * cols m"

definition at :: "'a Mat \<Rightarrow> nat \<Rightarrow> nat \<Rightarrow> error + 'a" where
  "at m i j =
     (if i < rows m \<and> j < cols m then Inr (data m ! (i * cols m + j)) else Inl OutOfRange)"

definition put :: "'a Mat \<Rightarrow> nat \<Rightarrow> nat \<Rightarrow> 'a \<Rightarrow> error + 'a Mat" where
  "put m i j v =
     (if i < rows m \<and> j < cols m then Inr (m\<lparr>data := (data m)[i * cols m + j := v]\<rparr>)
      else Inl OutOfRange)"

subsection \<open>The loop body\<close>

text \<open>
  The two matrices are passed by reference; the state of a call holds both (the
  parameters \<^verbatim>\<open>input\<close> and \<^verbatim>\<open>output\<close>), so that what the call changes, and
  what it leaves alone, is visible in the result.
\<close>

record conv_state =
  input_mat :: "Vec3b Mat"
  output_mat :: "uchar Mat"

text \<open>One iteration of the inner loop: read the pixel, average, store.\<close>

definition iteration :: "nat \<Rightarrow> nat \<Rightarrow> conv_state \<Rightarrow> error + conv_state" where
  "iteration i j st =
     (case at (input_mat st) i j of
        Inl e \<Rightarrow> Inl e
      | Inr intensity \<Rightarrow>
          (case put (output_mat st) i j (toGray intensity) of
             Inl e \<Rightarrow> Inl e
           | Inr out \<Rightarrow> Inr (st\<lparr>output_mat := out\<rparr>)))"

text \<open>\<^verbatim>\<open>for (int i = b; i < e; ++i) f(i)\<close>, stopping at the first failure.\<close>

function for_loop :: "nat \<Rightarrow> nat \<Rightarrow> (nat \<Rightarrow> 's \<Rightarrow> error + 's) \<Rightarrow> 's \<Rightarrow> error + 's" where
  "for_loop i e f s =
     (if i < e then (case f i s of Inl x \<Rightarrow> Inl x | Inr s' \<Rightarrow> for_loop (Suc i) e f s')
      else Inr s)"
  by pat_completeness auto
termination
  by (relation "measure (\<lambda>(i, e, f, s). e - i)") auto

declare for_loop.simps [simp del]

text \<open>
  A \<^verbatim>\<open>blocked_range<int>\<close> is the half-open interval from \<open>my_begin\<close> to
  \<open>my_end\<close>; a \<^verbatim>\<open>blocked_range2d<int>\<close> is a rectangle, one interval of rows and
  one of columns.
\<close>

record blocked_range =
  my_begin :: nat
  my_end :: nat

record blocked_range2d =
  my_rows :: blocked_range
  my_cols :: blocked_range

definition mk_range2d :: "nat \<Rightarrow> nat \<Rightarrow> nat \<Rightarrow> nat \<Rightarrow> blocked_range2d" where
  "mk_range2d row_begin row_end col_begin col_end =
     \<lparr>my_rows = \<lparr>my_begin = row_begin, my_end = row_end\<rparr>,
      my_cols = \<lparr>my_begin = col_begin, my_end = col_end\<rparr>\<rparr>"

text \<open>The function object given to \<^verbatim>\<open>parallel_for\<close>: two nested loops over \<open>r\<close>.\<close>

definition body :: "blocked_range2d \<Rightarrow> conv_state \<Rightarrow> error + conv_state" where
  "body r st =
     for_loop (my_begin (my_rows r)) (my_end (my_rows r))
       (\<lambda>i. for_loop (my_begin (my_cols r)) (my_end (my_cols r)) (\<lambda>j. iteration i j)) st"

text \<open>The coordinates \<open>body r\<close> visits, in the order it visits them.\<close>

definition iterations :: "blocked_range2d \<Rightarrow> (nat \<times> nat) list" where
  "iterations r =
     List.product [my_begin (my_rows r) ..< my_end (my_rows r)]
                  [my_begin (my_cols r) ..< my_end (my_cols r)]"

subsection \<open>The parallel loop\<close>

text \<open>
  \<^verbatim>\<open>parallel_for\<close> cuts the range it is given into sub-ranges, recursively: a
  \<^verbatim>\<open>blocked_range2d\<close> is split along its rows or along its columns, the left part
  keeping the interval up to the cut and the right part taking the rest. Where it cuts and
  when it stops are decisions of the scheduler; a \<open>partitioning\<close> records them, and
  \<open>subranges\<close> lists the resulting blocks. A cut lies inside the interval it cuts
  (\<open>proper\<close>).
\<close>

datatype partitioning =
    Whole
  | SplitRows nat partitioning partitioning
  | SplitCols nat partitioning partitioning

definition rows_upto :: "nat \<Rightarrow> blocked_range2d \<Rightarrow> blocked_range2d" where
  "rows_upto m r = r\<lparr>my_rows := (my_rows r)\<lparr>my_end := m\<rparr>\<rparr>"

definition rows_from :: "nat \<Rightarrow> blocked_range2d \<Rightarrow> blocked_range2d" where
  "rows_from m r = r\<lparr>my_rows := (my_rows r)\<lparr>my_begin := m\<rparr>\<rparr>"

definition cols_upto :: "nat \<Rightarrow> blocked_range2d \<Rightarrow> blocked_range2d" where
  "cols_upto m r = r\<lparr>my_cols := (my_cols r)\<lparr>my_end := m\<rparr>\<rparr>"

definition cols_from :: "nat \<Rightarrow> blocked_range2d \<Rightarrow> blocked_range2d" where
  "cols_from m r = r\<lparr>my_cols := (my_cols r)\<lparr>my_begin := m\<rparr>\<rparr>"

fun subranges :: "partitioning \<Rightarrow> blocked_range2d \<Rightarrow> blocked_range2d list" where
  "subranges Whole r = [r]"
| "subranges (SplitRows m p q) r = subranges p (rows_upto m r) @ subranges q (rows_from m r)"
| "subranges (SplitCols m p q) r = subranges p (cols_upto m r) @ subranges q (cols_from m r)"

fun proper :: "partitioning \<Rightarrow> blocked_range2d \<Rightarrow> bool" where
  "proper Whole r = True"
| "proper (SplitRows m p q) r =
     (my_begin (my_rows r) \<le> m \<and> m \<le> my_end (my_rows r) \<and>
      proper p (rows_upto m r) \<and> proper q (rows_from m r))"
| "proper (SplitCols m p q) r =
     (my_begin (my_cols r) \<le> m \<and> m \<le> my_end (my_cols r) \<and>
      proper p (cols_upto m r) \<and> proper q (cols_from m r))"

text \<open>
  The blocks run on the workers of the pool, each block by \<open>body\<close>. Whatever the
  number of workers, the iterations of all blocks take effect in some order; a
  \<open>schedule\<close> is a partitioning together with such an order, \<open>admissible\<close> for a
  range when the order visits exactly the iterations of the blocks, each as often as the
  blocks hold it. Every interleaving of the blocks' loops is such an order, and so is
  running the blocks one after another, in any sequence.
\<close>

record schedule =
  cuts :: partitioning
  visits :: "(nat \<times> nat) list"

definition admissible :: "schedule \<Rightarrow> blocked_range2d \<Rightarrow> bool" where
  "admissible sch r \<longleftrightarrow>
     proper (cuts sch) r \<and>
     mset (visits sch) = mset (concat (map iterations (subranges (cuts sch) r)))"

fun execute :: "(nat \<times> nat) list \<Rightarrow> conv_state \<Rightarrow> error + conv_state" where
  "execute [] st = Inr st"
| "execute ((i, j) # cs) st =
     (case iteration i j st of Inl e \<Rightarrow> Inl e | Inr st' \<Rightarrow> execute cs st')"

fun run_blocks :: "blocked_range2d list \<Rightarrow> conv_state \<Rightarrow> error + conv_state" where
  "run_blocks [] st = Inr st"
| "run_blocks (b # bs) st =
     (case body b st of Inl e \<Rightarrow> Inl e | Inr st' \<Rightarrow> run_blocks bs st')"

definition full_range :: "conv_state \<Rightarrow> blocked_range2d" where
  "full_range st = mk_range2d 0 (rows (input_mat st)) 0 (cols (input_mat st))"

definition grayscaleConversion :: "schedule \<Rightarrow> conv_state \<Rightarrow> error + conv_state" where
  "grayscaleConversion sch st = execute (visits sch) st"

text \<open>
  The reference of the specification: a single thread going through the grid row by
  row, applying the same transformation to every element.
\<close>

definition sequential_reference :: "conv_state \<Rightarrow> error + conv_state" where
  "sequential_reference st =
     for_loop 0 (rows (input_mat st))
       (\<lambda>r. for_loop 0 (cols (input_mat st)) (\<lambda>c. iteration r c)) st"

text \<open>
  What the destination buffer holds once the coordinates in \<open>S\<close> have been visited:
  the average of the source pixel at the offsets of \<open>S\<close>, the old element elsewhere.
\<close>

definition stored :: "conv_state \<Rightarrow> (nat \<times> nat) set \<Rightarrow> uchar list" where
  "stored st S =
     map (\<lambda>k. if (k div cols (output_mat st), k mod cols (output_mat st)) \<in> S
              then toGray (data (input_mat st)
                     ! (k div cols (output_mat st) * cols (input_mat st) + k mod cols (output_mat st)))
              else data (output_mat st) ! k)
       [0 ..< length (data (output_mat st))]"

text \<open>
  The coordinates of the source grid, and the two shapes of a call: the source
  \<open>fits\<close> when the destination is at least as large in both directions, and the grids
  are of the \<open>same_size\<close> when the dimensions agree. Both ask that each buffer holds
  \<open>rows * cols\<close> elements.
\<close>

definition inside :: "conv_state \<Rightarrow> (nat \<times> nat) set" where
  "inside st = {(i, j). i < rows (input_mat st) \<and> j < cols (input_mat st)}"

definition fits :: "conv_state \<Rightarrow> bool" where
  "fits st \<longleftrightarrow>
     allocated (input_mat st) \<and> allocated (output_mat st) \<and>
     rows (input_mat st) \<le> rows (output_mat st) \<and>
     cols (input_mat st) \<le> cols (output_mat st)"

definition same_size :: "conv_state \<Rightarrow> bool" where
  "same_size st \<longleftrightarrow>
     allocated (input_mat st) \<and> allocated (output_mat st) \<and>
     rows (output_mat st) = rows (input_mat st) \<and>
     cols (output_mat st) = cols (input_mat st)"

definition finished :: "conv_state \<Rightarrow> (nat \<times> nat) set \<Rightarrow> conv_state" where
  "finished st S = st\<lparr>output_mat := (output_mat st)\<lparr>data := stored st S\<rparr>\<rparr>"

definition converted :: "conv_state \<Rightarrow> conv_state" where
  "converted st =
     st\<lparr>output_mat := (output_mat st)\<lparr>data := map toGray (data (input_mat st))\<rparr>\<rparr>"

subsection \<open>The stores of a run\<close>

text \<open>
  To count the stores of a run, the same code is run with a log beside the state:
  \<open>recorded_put\<close> is \<open>put\<close>, and where \<open>put\<close> stores an element it appends the
  coordinate to the log. \<open>iteration_logged\<close> is the iteration with this store,
  \<open>body_logged\<close> the two loops over it, and the runs are as before. The log holds one
  entry for each store into the destination, in the order of the stores.
\<close>

type_synonym store_log = "(nat \<times> nat) list"

definition recorded_put ::
  "'a Mat \<times> store_log \<Rightarrow> nat \<Rightarrow> nat \<Rightarrow> 'a \<Rightarrow> error + ('a Mat \<times> store_log)" where
  "recorded_put ml i j v =
     (case put (fst ml) i j v of
        Inl e \<Rightarrow> Inl e
      | Inr m \<Rightarrow> Inr (m, snd ml @ [(i, j)]))"

definition iteration_logged ::
  "nat \<Rightarrow> nat \<Rightarrow> conv_state \<times> store_log \<Rightarrow> error + (conv_state \<times> store_log)" where
  "iteration_logged i j sl =
     (case at (input_mat (fst sl)) i j of
        Inl e \<Rightarrow> Inl e
      | Inr intensity \<Rightarrow>
          (case recorded_put (output_mat (fst sl), snd sl) i j (toGray intensity) of
             Inl e \<Rightarrow> Inl e
           | Inr (out, ws) \<Rightarrow> Inr ((fst sl)\<lparr>output_mat := out\<rparr>, ws)))"

definition body_logged ::
  "blocked_range2d \<Rightarrow> conv_state \<times> store_log \<Rightarrow> error + (conv_state \<times> store_log)" where
  "body_logged r sl =
     for_loop (my_begin (my_rows r)) (my_end (my_rows r))
       (\<lambda>i. for_loop (my_begin (my_cols r)) (my_end (my_cols r))
              (\<lambda>j. iteration_logged i j)) sl"

fun execute_logged ::
  "(nat \<times> nat) list \<Rightarrow> conv_state \<times> store_log \<Rightarrow> error + (conv_state \<times> store_log)" where
  "execute_logged [] sl = Inr sl"
| "execute_logged ((i, j) # cs) sl =
     (case iteration_logged i j sl of Inl e \<Rightarrow> Inl e | Inr sl' \<Rightarrow> execute_logged cs sl')"

fun run_blocks_logged ::
  "blocked_range2d list \<Rightarrow> conv_state \<times> store_log \<Rightarrow> error + (conv_state \<times> store_log)" where
  "run_blocks_logged [] sl = Inr sl"
| "run_blocks_logged (b # bs) sl =
     (case body_logged b sl of Inl e \<Rightarrow> Inl e | Inr sl' \<Rightarrow> run_blocks_logged bs sl')"

definition grayscaleConversion_logged ::
  "schedule \<Rightarrow> conv_state \<Rightarrow> error + (conv_state \<times> store_log)" where
  "grayscaleConversion_logged sch st = execute_logged (visits sch) (st, [])"

subsection \<open>Example grids and schedules\<close>

text \<open>
  The 2 by 2 grid of the specification's scenario, a grid of one pixel, and schedules
  for them: three blocks whose iterations interleave, the same grid cut the other way
  round, and a single block.
\<close>

definition example_source :: "Vec3b Mat" where
  "example_source =
     \<lparr>rows = 2, cols = 2,
      data = [(10, 20, 30), (40, 50, 60), (70, 80, 90), (100, 110, 120)]\<rparr>"

definition example_schedule :: schedule where
  "example_schedule =
     \<lparr>cuts = SplitRows 1 Whole (SplitCols 1 Whole Whole),
      visits = [(1, 1), (0, 0), (1, 0), (0, 1)]\<rparr>"

definition example_state :: conv_state where
  "example_state =
     \<lparr>input_mat = example_source, output_mat = \<lparr>rows = 2, cols = 2, data = [7, 7, 7, 7]\<rparr>\<rparr>"




section \<open>The pixel arithmetic stays in range\<close>

lemma uint_promote: "uint (promote c) = uint c"
  by (simp add: promote_def uint_up_ucast is_up)

lemma uint_uchar_less: "uint (c :: uchar) < 256"
  using uint_bounded [of c] by simp

lemma uint_channel_sum:
  "uint (channel_sum (c0, c1, c2)) = uint c0 + uint c1 + uint c2"
  using uint_uchar_less [of c0] uint_uchar_less [of c1] uint_uchar_less [of c2]
  by (simp add: channel_sum_def uint_word_ariths uint_promote)

lemma sint_channel_sum:
  "sint (channel_sum (c0, c1, c2)) = uint c0 + uint c1 + uint c2"
proof -
  let ?u = "uint (channel_sum (c0, c1, c2))"
  have "?u < 2 ^ 31"
    using uint_uchar_less [of c0] uint_uchar_less [of c1] uint_uchar_less [of c2]
    by (simp add: uint_channel_sum)
  moreover have "- (2 ^ 31) \<le> ?u"
    by (rule order_trans [of _ 0]) simp_all
  ultimately have "signed_take_bit 31 ?u = ?u"
    by (rule signed_take_bit_int_eq_self [rotated])
  hence "sint (channel_sum (c0, c1, c2)) = ?u"
    by (simp add: sint_uint)
  thus ?thesis by (simp add: uint_channel_sum)
qed

lemma gray_value_quotient:
  "gray_value (c0, c1, c2) = word_of_int ((uint c0 + uint c1 + uint c2) div 3)"
proof -
  let ?s = "uint c0 + uint c1 + uint c2"
  have "0 \<le> ?s" by simp
  hence "?s sdiv 3 = ?s div 3"
    by (simp add: signed_divide_int_def sgn_if)
  thus ?thesis
    by (simp add: gray_value_def int_div_def sint_channel_sum)
qed

lemma quotient_range:
  "0 \<le> (uint (c0 :: uchar) + uint (c1 :: uchar) + uint (c2 :: uchar)) div 3"
  "(uint c0 + uint c1 + uint c2) div 3 \<le> 255"
proof -
  have "0 \<le> uint c0 + uint c1 + uint c2" by simp
  thus "0 \<le> (uint c0 + uint c1 + uint c2) div 3" by linarith
  show "(uint c0 + uint c1 + uint c2) div 3 \<le> 255"
    using uint_uchar_less [of c0] uint_uchar_less [of c1] uint_uchar_less [of c2]
    by linarith
qed

lemma uint_gray_value:
  "uint (gray_value (c0, c1, c2)) = (uint c0 + uint c1 + uint c2) div 3"
  unfolding gray_value_quotient
  using quotient_range [of c0 c1 c2] by (simp add: uint_word_of_int)

lemma sint_gray_value:
  "sint (gray_value (c0, c1, c2)) = (uint c0 + uint c1 + uint c2) div 3"
  unfolding gray_value_quotient
  using quotient_range [of c0 c1 c2]
  by (simp add: sint_sbintrunc' signed_take_bit_int_eq_self)

lemma uint_toGray:
  "uint (toGray (c0, c1, c2)) = (uint c0 + uint c1 + uint c2) div 3"
proof -
  have "uint (toGray (c0, c1, c2)) = take_bit 8 (uint (gray_value (c0, c1, c2)))"
    by (simp add: toGray_def unsigned_ucast_eq)
  also have "\<dots> = (uint c0 + uint c1 + uint c2) div 3"
    unfolding uint_gray_value
    using quotient_range [of c0 c1 c2] by (intro take_bit_int_eq_self) simp_all
  finally show ?thesis .
qed

lemma widen_toGray: "(ucast (toGray (c0, c1, c2)) :: c_int) = gray_value (c0, c1, c2)"
proof -
  have "uint (ucast (toGray (c0, c1, c2)) :: c_int) = uint (gray_value (c0, c1, c2))"
    by (simp add: uint_up_ucast is_up uint_toGray uint_gray_value)
  thus ?thesis by (rule word_uint_eqI)
qed

section \<open>Loops as lists of iterations\<close>

lemma execute_append:
  "execute (xs @ ys) st =
     (case execute xs st of Inl e \<Rightarrow> Inl e | Inr st' \<Rightarrow> execute ys st')"
  by (induction xs st rule: execute.induct) (auto split: sum.splits)

lemma inner_loop_execute:
  "for_loop b e (\<lambda>j. iteration i j) st = execute (map (Pair i) [b ..< e]) st"
proof (induction b e "\<lambda>j. iteration i j" st rule: for_loop.induct)
  case (1 b e st)
  show ?case
  proof (cases "b < e")
    case True
    hence u: "[b ..< e] = b # [Suc b ..< e]" by (simp add: upt_conv_Cons)
    show ?thesis
      using True 1 by (subst for_loop.simps) (simp add: u split: sum.splits)
  next
    case False
    thus ?thesis by (subst for_loop.simps) simp
  qed
qed

lemma inner_loop_execute_fun:
  "for_loop b e (iteration i) = execute (map (Pair i) [b ..< e])"
  by (rule ext) (rule inner_loop_execute)

lemma outer_loop_execute:
  "for_loop b e (\<lambda>i. execute (map (Pair i) js)) st = execute (List.product [b ..< e] js) st"
proof (induction b e "\<lambda>i. execute (map (Pair i) js)" st rule: for_loop.induct)
  case (1 b e st)
  show ?case
  proof (cases "b < e")
    case True
    hence u: "[b ..< e] = b # [Suc b ..< e]" by (simp add: upt_conv_Cons)
    show ?thesis
      using True 1 by (subst for_loop.simps) (simp add: u execute_append split: sum.splits)
  next
    case False
    thus ?thesis by (subst for_loop.simps) simp
  qed
qed

lemma body_execute: "body r st = execute (iterations r) st"
  by (simp add: body_def iterations_def inner_loop_execute_fun outer_loop_execute)

lemma run_blocks_execute: "run_blocks bs st = execute (concat (map iterations bs)) st"
  by (induction bs arbitrary: st) (auto simp: body_execute execute_append split: sum.splits)

lemma sequential_reference_execute:
  "sequential_reference st = execute (iterations (full_range st)) st"
  by (simp add: sequential_reference_def iterations_def full_range_def mk_range2d_def
      inner_loop_execute_fun outer_loop_execute)

section \<open>What a run stores\<close>


lemma offset_coord:
  assumes "j < (c::nat)"
  shows "(k div c = i \<and> k mod c = j) \<longleftrightarrow> k = i * c + j"
  using assms by auto

lemma stored_empty: "stored st {} = data (output_mat st)"
  by (simp add: stored_def map_nth)

lemma iteration_fits:
  assumes "fits st" "(i, j) \<in> inside st"
  shows "iteration i j st =
    Inr (st\<lparr>output_mat := (output_mat st)\<lparr>data := (data (output_mat st))
      [i * cols (output_mat st) + j :=
         toGray (data (input_mat st) ! (i * cols (input_mat st) + j))]\<rparr>\<rparr>)"
  using assms by (auto simp: iteration_def at_def put_def fits_def inside_def)

lemma stored_step:
  assumes "fits st" "(i, j) \<in> inside st"
    and st': "st' = st\<lparr>output_mat := (output_mat st)\<lparr>data := (data (output_mat st))
      [i * cols (output_mat st) + j :=
         toGray (data (input_mat st) ! (i * cols (input_mat st) + j))]\<rparr>\<rparr>"
  shows "stored st' S = stored st (insert (i, j) S)"
proof -
  have j: "j < cols (output_mat st)"
    using assms by (auto simp: fits_def inside_def)
  let ?co = "cols (output_mat st)"
  show ?thesis
  proof (rule nth_equalityI)
    show "length (stored st' S) = length (stored st (insert (i, j) S))"
      by (simp add: stored_def st')
  next
    fix k assume "k < length (stored st' S)"
    hence k: "k < length (data (output_mat st))" by (simp add: stored_def st')
    show "stored st' S ! k = stored st (insert (i, j) S) ! k"
    proof (cases "k = i * ?co + j")
      case True
      hence "k div ?co = i" "k mod ?co = j" using j by simp_all
      thus ?thesis using k True by (simp add: stored_def st')
    next
      case False
      hence "(k div ?co, k mod ?co) \<noteq> (i, j)"
        using offset_coord [OF j, of k i] by simp
      thus ?thesis using k False by (auto simp: stored_def st')
    qed
  qed
qed

lemma execute_fits:
  assumes "fits st" "set cs \<subseteq> inside st"
  shows "execute cs st = Inr (finished st (set cs))"
  using assms
proof (induction cs arbitrary: st)
  case Nil
  thus ?case by (simp add: finished_def stored_empty)
next
  case (Cons c cs)
  obtain i j where c: "c = (i, j)" by (cases c)
  define st' where "st' = st\<lparr>output_mat := (output_mat st)\<lparr>data := (data (output_mat st))
      [i * cols (output_mat st) + j :=
         toGray (data (input_mat st) ! (i * cols (input_mat st) + j))]\<rparr>\<rparr>"
  have ij: "(i, j) \<in> inside st" using Cons.prems c by simp
  have it: "iteration i j st = Inr st'"
    unfolding st'_def by (rule iteration_fits [OF Cons.prems(1) ij])
  have f': "fits st'" using Cons.prems(1) by (simp add: fits_def st'_def allocated_def)
  have i': "inside st' = inside st" by (simp add: inside_def st'_def)
  have "execute cs st' = Inr (finished st' (set cs))"
    using Cons.prems(2) by (intro Cons.IH f') (simp add: i')
  moreover have "finished st' (set cs) = finished st (set (c # cs))"
    using stored_step [OF Cons.prems(1) ij st'_def, of "set cs"]
    by (simp add: finished_def c) (simp add: st'_def)
  ultimately show ?case by (simp add: c it)
qed

lemma stored_all:
  assumes "same_size st"
  shows "stored st (inside st) = map toGray (data (input_mat st))"
proof (rule nth_equalityI)
  show "length (stored st (inside st)) = length (map toGray (data (input_mat st)))"
    using assms by (simp add: stored_def allocated_def same_size_def)
next
  fix k assume "k < length (stored st (inside st))"
  hence k: "k < rows (input_mat st) * cols (input_mat st)"
    using assms by (simp add: stored_def allocated_def same_size_def)
  hence c: "0 < cols (input_mat st)" by (cases "cols (input_mat st)") simp_all
  have "k div cols (input_mat st) < rows (input_mat st)"
    using k c by (simp add: less_mult_imp_div_less)
  moreover have "k mod cols (input_mat st) < cols (input_mat st)" using c by simp
  ultimately show "stored st (inside st) ! k = map toGray (data (input_mat st)) ! k"
    using k assms by (simp add: stored_def allocated_def inside_def same_size_def)
qed

lemma same_size_fits: "same_size st \<Longrightarrow> fits st"
  by (simp add: same_size_def fits_def)

lemma finished_all: "same_size st \<Longrightarrow> finished st (inside st) = converted st"
  by (simp add: finished_def converted_def stored_all)


section \<open>The blocks of a partitioning\<close>

lemma mset_product_append2:
  "mset (List.product xs (ys @ zs)) = mset (List.product xs ys) + mset (List.product xs zs)"
  by (induction xs) simp_all

lemma upt_cut: "b \<le> m \<Longrightarrow> m \<le> e \<Longrightarrow> [b ..< m] @ [m ..< e] = [b ..< e]"
  by (metis le_Suc_ex upt_add_eq_append)

lemma product_append1:
  "List.product (xs @ ys) zs = List.product xs zs @ List.product ys zs"
  by (induction xs) simp_all

lemma iterations_split_rows:
  assumes "my_begin (my_rows r) \<le> m" "m \<le> my_end (my_rows r)"
  shows "mset (iterations (rows_upto m r)) + mset (iterations (rows_from m r)) =
         mset (iterations r)"
proof -
  have "iterations (rows_upto m r) @ iterations (rows_from m r) = iterations r"
    by (simp add: iterations_def rows_upto_def rows_from_def
        flip: product_append1 upt_cut [OF assms])
  thus ?thesis by (metis mset_append)
qed

lemma iterations_split_cols:
  assumes "my_begin (my_cols r) \<le> m" "m \<le> my_end (my_cols r)"
  shows "mset (iterations (cols_upto m r)) + mset (iterations (cols_from m r)) =
         mset (iterations r)"
  by (simp add: iterations_def cols_upto_def cols_from_def
      flip: mset_product_append2 upt_cut [OF assms])

lemma subranges_cover:
  "proper p r \<Longrightarrow> mset (concat (map iterations (subranges p r))) = mset (iterations r)"
proof (induction p arbitrary: r)
  case Whole
  show ?case by simp
next
  case (SplitRows m p q)
  thus ?case by (simp add: iterations_split_rows)
next
  case (SplitCols m p q)
  thus ?case by (simp add: iterations_split_cols)
qed

lemma distinct_iterations: "distinct (iterations r)"
  by (simp add: iterations_def distinct_product)

lemma set_iterations_full: "set (iterations (full_range st)) = inside st"
  by (auto simp: iterations_def full_range_def mk_range2d_def inside_def)

lemma admissible_mset:
  "admissible sch r \<Longrightarrow> mset (visits sch) = mset (iterations r)"
  by (simp add: admissible_def subranges_cover)

lemma admissible_set:
  "admissible sch (full_range st) \<Longrightarrow> set (visits sch) = inside st"
  by (metis admissible_mset mset_eq_setD set_iterations_full)

lemma disjoint_in_concat:
  "distinct (concat xss) \<Longrightarrow> a < b \<Longrightarrow> b < length xss \<Longrightarrow>
     set (xss ! a) \<inter> set (xss ! b) = {}"
proof (induction xss arbitrary: a b)
  case Nil
  thus ?case by simp
next
  case (Cons xs xss)
  show ?case
  proof (cases a)
    case 0
    then obtain b' where b: "b = Suc b'" using Cons.prems(2) by (cases b) simp_all
    hence "xss ! b' \<in> set xss" using Cons.prems(3) by simp
    thus ?thesis using Cons.prems(1) 0 b by auto
  next
    case (Suc a')
    then obtain b' where b: "b = Suc b'" using Cons.prems(2) by (cases b) simp_all
    thus ?thesis using Cons.IH [of a' b'] Cons.prems Suc by simp
  qed
qed

lemma mset_concat_map:
  "mset (concat (map f xs)) = (\<Sum>x \<in># mset xs. mset (f x))"
  by (induction xs) simp_all

lemma count_list_distinct:
  "distinct xs \<Longrightarrow> count_list xs x = (if x \<in> set xs then 1 else 0)"
  by (induction xs) auto

section \<open>Runs of the conversion\<close>

lemma conversion_fits:
  assumes "fits st" "admissible sch (full_range st)"
  shows "grayscaleConversion sch st = Inr (finished st (inside st))"
  using execute_fits [OF assms(1), of "visits sch"] admissible_set [OF assms(2)]
  by (simp add: grayscaleConversion_def)

lemma conversion_same_size:
  assumes "same_size st" "admissible sch (full_range st)"
  shows "grayscaleConversion sch st = Inr (converted st)"
  using conversion_fits [OF same_size_fits [OF assms(1)] assms(2)] finished_all [OF assms(1)]
  by simp

lemma sequential_same_size:
  assumes "same_size st"
  shows "sequential_reference st = Inr (converted st)"
  using execute_fits [OF same_size_fits [OF assms], of "iterations (full_range st)"]
    finished_all [OF assms]
  by (simp add: sequential_reference_execute set_iterations_full)

lemma run_blocks_same_size:
  assumes "same_size st" "proper p (full_range st)"
    and "mset bs = mset (subranges p (full_range st))"
  shows "run_blocks bs st = Inr (converted st)"
proof -
  have "mset (concat (map iterations bs)) =
        mset (concat (map iterations (subranges p (full_range st))))"
    using assms(3) by (simp add: mset_concat_map)
  hence "mset (concat (map iterations bs)) = mset (iterations (full_range st))"
    using assms(2) by (simp add: subranges_cover)
  hence "set (concat (map iterations bs)) = inside st"
    by (metis mset_eq_setD set_iterations_full)
  thus ?thesis
    using execute_fits [OF same_size_fits [OF assms(1)], of "concat (map iterations bs)"]
      finished_all [OF assms(1)]
    by (simp add: run_blocks_execute)
qed

section \<open>The log of a run\<close>

lemma iteration_logged_erase:
  "iteration_logged i j (st, ws) =
     (case iteration i j st of Inl e \<Rightarrow> Inl e | Inr st' \<Rightarrow> Inr (st', ws @ [(i, j)]))"
  by (simp add: iteration_logged_def iteration_def recorded_put_def split: sum.splits)

lemma execute_logged_erase:
  "execute_logged cs (st, ws) =
     (case execute cs st of Inl e \<Rightarrow> Inl e | Inr st' \<Rightarrow> Inr (st', ws @ cs))"
proof (induction cs arbitrary: st ws)
  case Nil
  show ?case by simp
next
  case (Cons c cs)
  obtain i j where c: "c = (i, j)" by (cases c)
  show ?case
    by (simp add: c iteration_logged_erase Cons.IH split: sum.splits)
qed

lemma execute_logged_append:
  "execute_logged (xs @ ys) sl =
     (case execute_logged xs sl of Inl e \<Rightarrow> Inl e | Inr sl' \<Rightarrow> execute_logged ys sl')"
  by (induction xs sl rule: execute_logged.induct) (auto split: sum.splits)

lemma inner_loop_logged:
  "for_loop b e (\<lambda>j. iteration_logged i j) sl = execute_logged (map (Pair i) [b ..< e]) sl"
proof (induction b e "\<lambda>j. iteration_logged i j" sl rule: for_loop.induct)
  case (1 b e sl)
  show ?case
  proof (cases "b < e")
    case True
    hence u: "[b ..< e] = b # [Suc b ..< e]" by (simp add: upt_conv_Cons)
    show ?thesis
      using True 1 by (subst for_loop.simps) (simp add: u split: sum.splits)
  next
    case False
    thus ?thesis by (subst for_loop.simps) simp
  qed
qed

lemma inner_loop_logged_fun:
  "for_loop b e (iteration_logged i) = execute_logged (map (Pair i) [b ..< e])"
  by (rule ext) (rule inner_loop_logged)

lemma outer_loop_logged:
  "for_loop b e (\<lambda>i. execute_logged (map (Pair i) js)) sl =
     execute_logged (List.product [b ..< e] js) sl"
proof (induction b e "\<lambda>i. execute_logged (map (Pair i) js)" sl rule: for_loop.induct)
  case (1 b e sl)
  show ?case
  proof (cases "b < e")
    case True
    hence u: "[b ..< e] = b # [Suc b ..< e]" by (simp add: upt_conv_Cons)
    show ?thesis
      using True 1
      by (subst for_loop.simps) (simp add: u execute_logged_append split: sum.splits)
  next
    case False
    thus ?thesis by (subst for_loop.simps) simp
  qed
qed

lemma body_logged_execute: "body_logged r sl = execute_logged (iterations r) sl"
  by (simp add: body_logged_def iterations_def inner_loop_logged_fun outer_loop_logged)

lemma run_blocks_logged_execute:
  "run_blocks_logged bs sl = execute_logged (concat (map iterations bs)) sl"
  by (induction bs arbitrary: sl)
     (auto simp: body_logged_execute execute_logged_append split: sum.splits)

lemma run_blocks_logged_erase:
  "run_blocks_logged bs (st, ws) =
     (case run_blocks bs st of
        Inl e \<Rightarrow> Inl e
      | Inr st' \<Rightarrow> Inr (st', ws @ concat (map iterations bs)))"
  by (simp add: run_blocks_logged_execute run_blocks_execute execute_logged_erase)

lemma count_list_permuted:
  assumes "mset ws = mset (iterations (full_range st))"
  shows "count_list ws (i, j) =
     (if i < rows (input_mat st) \<and> j < cols (input_mat st) then 1 else 0)"
proof -
  have "distinct ws"
    using assms distinct_iterations [of "full_range st"] by (metis mset_eq_imp_distinct_iff)
  moreover have "set ws = inside st"
    using assms by (metis mset_eq_setD set_iterations_full)
  ultimately show ?thesis
    by (simp add: count_list_distinct inside_def)
qed

section \<open>The claims of the specification\<close>

subsection \<open>The kernel\<close>

text \<open>
  C1: the grayscale value of a pixel is the sum of its three channels divided by three,
  the quotient truncated and no channel weighted; so black gives 0, white 255, pure
  \<open>(255, 0, 0)\<close> gives 85, \<open>(10, 20, 30)\<close> gives 20 and \<open>(1, 1, 2)\<close> gives 1.
\<close>

theorem toGray_truncated_mean:
  "uint (toGray (c0, c1, c2)) = (uint c0 + uint c1 + uint c2) div 3 \<and>
   toGray (0, 0, 0) = 0 \<and> toGray (255, 255, 255) = 255 \<and> toGray (255, 0, 0) = 85 \<and>
   toGray (10, 20, 30) = 20 \<and> toGray (1, 1, 2) = 1"
proof -
  have "toGray (0, 0, 0) = 0" "toGray (255, 255, 255) = 255" "toGray (255, 0, 0) = 85"
    "toGray (10, 20, 30) = 20" "toGray (1, 1, 2) = 1"
    by (simp_all add: toGray_def gray_value_def channel_sum_def int_div_def promote_def
        signed_divide_int_def)
  thus ?thesis by (simp add: uint_toGray)
qed

text \<open>
  C3: for every pixel the 32-bit sum of the promoted channels is the true sum, at most
  765, so the addition does not wrap; the quotient is the true quotient and lies between
  0 and 255; and the cast to \<^verbatim>\<open>uchar\<close> loses nothing, the stored byte widened again
  being the quotient.
\<close>

theorem toGray_in_range:
  "sint (channel_sum (c0, c1, c2)) = uint c0 + uint c1 + uint c2 \<and>
   sint (channel_sum (c0, c1, c2)) \<le> 765 \<and>
   sint (gray_value (c0, c1, c2)) = sint (channel_sum (c0, c1, c2)) div 3 \<and>
   0 \<le> sint (gray_value (c0, c1, c2)) \<and> sint (gray_value (c0, c1, c2)) \<le> 255 \<and>
   ucast (toGray (c0, c1, c2)) = gray_value (c0, c1, c2)"
proof -
  have "uint c0 + uint c1 + uint c2 \<le> 765"
    using uint_uchar_less [of c0] uint_uchar_less [of c1] uint_uchar_less [of c2] by simp
  thus ?thesis
    using quotient_range [of c0 c1 c2]
    by (simp add: sint_channel_sum sint_gray_value widen_toGray)
qed

text \<open>
  C10: the grayscale value does not depend on the order of the three channels: all six
  orders of \<open>a\<close>, \<open>b\<close>, \<open>c\<close> give the same byte.
\<close>

theorem toGray_channel_order:
  "toGray (a, c, b) = toGray (a, b, c) \<and> toGray (b, a, c) = toGray (a, b, c) \<and>
   toGray (b, c, a) = toGray (a, b, c) \<and> toGray (c, a, b) = toGray (a, b, c) \<and>
   toGray (c, b, a) = toGray (a, b, c)"
  by (simp add: toGray_def gray_value_def channel_sum_def add.commute add.left_commute)

subsection \<open>The parallel map\<close>

text \<open>
  C2: for grids of the same size, the conversion under any admissible schedule (any
  partitioning, the iterations of its blocks taking effect in any order) gives the
  result of the single-threaded row-by-row reference, and so do the blocks run by the
  loop body one after another in any sequence; that result is the destination holding
  the grayscale value of every source pixel.
\<close>

theorem parallel_equals_sequential:
  assumes "same_size st" "admissible sch (full_range st)"
    and "mset bs = mset (subranges (cuts sch) (full_range st))"
  shows "grayscaleConversion sch st = sequential_reference st \<and>
         run_blocks bs st = sequential_reference st \<and>
         sequential_reference st = Inr (converted st)"
proof -
  have "proper (cuts sch) (full_range st)" using assms(2) by (simp add: admissible_def)
  thus ?thesis
    using assms by (simp add: conversion_same_size sequential_same_size run_blocks_same_size)
qed

theorem parallel_equals_sequential_witness:
  "same_size example_state \<and> admissible example_schedule (full_range example_state) \<and>
   mset [mk_range2d 1 2 1 2, mk_range2d 0 1 0 2, mk_range2d 1 2 0 1] =
     mset (subranges (cuts example_schedule) (full_range example_state)) \<and>
   grayscaleConversion example_schedule example_state = sequential_reference example_state \<and>
   run_blocks [mk_range2d 1 2 1 2, mk_range2d 0 1 0 2, mk_range2d 1 2 0 1] example_state =
     sequential_reference example_state \<and>
   sequential_reference example_state = Inr (converted example_state)"
proof -
  have h1: "same_size example_state" by code_simp
  have h2: "admissible example_schedule (full_range example_state)" by code_simp
  have h3: "mset [mk_range2d 1 2 1 2, mk_range2d 0 1 0 2, mk_range2d 1 2 0 1] =
     mset (subranges (cuts example_schedule) (full_range example_state))" by code_simp
  show ?thesis
    using h1 h2 h3 parallel_equals_sequential [OF h1 h2 h3] by simp
qed

text \<open>
  C4: on grids of the same size, under every admissible schedule, the blocks handed to
  the loop body are pairwise disjoint and together are exactly the coordinates of the
  grid; the conversion ends with the destination holding the grayscale value of every
  source pixel, and in its run every coordinate of the grid is stored to exactly once
  and no other coordinate is stored to. The same holds of the blocks run by the loop
  body one after another, in any sequence.
\<close>

theorem every_coordinate_stored_once:
  assumes "same_size st" "admissible sch (full_range st)"
    and "mset bs = mset (subranges (cuts sch) (full_range st))"
  shows "(a < b \<and> b < length (subranges (cuts sch) (full_range st)) \<longrightarrow>
            set (iterations (subranges (cuts sch) (full_range st) ! a)) \<inter>
            set (iterations (subranges (cuts sch) (full_range st) ! b)) = {}) \<and>
         (\<Union>r \<in> set (subranges (cuts sch) (full_range st)). set (iterations r)) =
            {(i, j). i < rows (input_mat st) \<and> j < cols (input_mat st)} \<and>
         (\<exists>st' ws ws'.
            st' = converted st \<and>
            grayscaleConversion sch st = Inr st' \<and>
            grayscaleConversion_logged sch st = Inr (st', ws) \<and>
            run_blocks bs st = Inr st' \<and>
            run_blocks_logged bs (st, []) = Inr (st', ws') \<and>
            (\<forall>i j. count_list ws (i, j) =
               (if i < rows (input_mat st) \<and> j < cols (input_mat st) then 1 else 0)) \<and>
            (\<forall>i j. count_list ws' (i, j) =
               (if i < rows (input_mat st) \<and> j < cols (input_mat st) then 1 else 0)))"
proof -
  let ?bs = "subranges (cuts sch) (full_range st)"
  have p: "proper (cuts sch) (full_range st)"
    using assms(2) by (simp add: admissible_def)
  have m: "mset (concat (map iterations ?bs)) = mset (iterations (full_range st))"
    by (rule subranges_cover [OF p])
  have d: "distinct (concat (map iterations ?bs))"
    using m distinct_iterations [of "full_range st"] by (metis mset_eq_imp_distinct_iff)
  have one: "a < b \<and> b < length ?bs \<longrightarrow>
      set (iterations (?bs ! a)) \<inter> set (iterations (?bs ! b)) = {}"
    using disjoint_in_concat [OF d, of a b] by auto
  have "set (concat (map iterations ?bs)) = inside st"
    using m by (metis mset_eq_setD set_iterations_full)
  hence two: "(\<Union>r \<in> set ?bs. set (iterations r)) =
      {(i, j). i < rows (input_mat st) \<and> j < cols (input_mat st)}"
    by (simp add: inside_def)
  have g: "grayscaleConversion sch st = Inr (converted st)"
    by (rule conversion_same_size [OF assms(1,2)])
  hence gl: "grayscaleConversion_logged sch st = Inr (converted st, visits sch)"
    by (simp add: grayscaleConversion_logged_def grayscaleConversion_def execute_logged_erase)
  have r: "run_blocks bs st = Inr (converted st)"
    by (rule run_blocks_same_size [OF assms(1) p assms(3)])
  hence rl: "run_blocks_logged bs (st, []) = Inr (converted st, concat (map iterations bs))"
    by (simp add: run_blocks_logged_erase)
  have "mset (concat (map iterations bs)) = mset (concat (map iterations ?bs))"
    using assms(3) by (simp add: mset_concat_map)
  hence c': "\<forall>i j. count_list (concat (map iterations bs)) (i, j) =
      (if i < rows (input_mat st) \<and> j < cols (input_mat st) then 1 else 0)"
    using m by (simp add: count_list_permuted)
  have c: "\<forall>i j. count_list (visits sch) (i, j) =
      (if i < rows (input_mat st) \<and> j < cols (input_mat st) then 1 else 0)"
    using admissible_mset [OF assms(2)] by (simp add: count_list_permuted)
  show ?thesis using one two g gl r rl c c' by blast
qed

theorem every_coordinate_stored_once_witness:
  "same_size example_state \<and> admissible example_schedule (full_range example_state) \<and>
   mset [mk_range2d 1 2 1 2, mk_range2d 0 1 0 2, mk_range2d 1 2 0 1] =
     mset (subranges (cuts example_schedule) (full_range example_state)) \<and>
   (0::nat) < 2 \<and> 2 < length (subranges (cuts example_schedule) (full_range example_state)) \<and>
   set (iterations (subranges (cuts example_schedule) (full_range example_state) ! 0)) \<inter>
   set (iterations (subranges (cuts example_schedule) (full_range example_state) ! 2)) = {} \<and>
   (\<Union>r \<in> set (subranges (cuts example_schedule) (full_range example_state)).
      set (iterations r)) = {(i, j). i < 2 \<and> j < 2} \<and>
   (\<exists>st' ws ws'.
      st' = converted example_state \<and>
      grayscaleConversion example_schedule example_state = Inr st' \<and>
      grayscaleConversion_logged example_schedule example_state = Inr (st', ws) \<and>
      run_blocks [mk_range2d 1 2 1 2, mk_range2d 0 1 0 2, mk_range2d 1 2 0 1] example_state =
        Inr st' \<and>
      run_blocks_logged [mk_range2d 1 2 1 2, mk_range2d 0 1 0 2, mk_range2d 1 2 0 1]
        (example_state, []) = Inr (st', ws') \<and>
      (\<forall>i j. count_list ws (i, j) = (if i < 2 \<and> j < 2 then 1 else 0)) \<and>
      (\<forall>i j. count_list ws' (i, j) = (if i < 2 \<and> j < 2 then 1 else 0)))"
proof -
  have h1: "same_size example_state" by code_simp
  have h2: "admissible example_schedule (full_range example_state)" by code_simp
  have h3: "mset [mk_range2d 1 2 1 2, mk_range2d 0 1 0 2, mk_range2d 1 2 0 1] =
     mset (subranges (cuts example_schedule) (full_range example_state))" by code_simp
  have l: "2 < length (subranges (cuts example_schedule) (full_range example_state))"
    by code_simp
  have r: "rows (input_mat example_state) = 2" "cols (input_mat example_state) = 2"
    by (simp_all add: example_state_def example_source_def)
  show ?thesis
    using h1 h2 h3 l every_coordinate_stored_once [OF h1 h2 h3, of 0 2] by (simp add: r)
qed




text \<open>
  C6: on grids of the same size the conversion ends without an error, and the state it
  returns is the state it was given except for the contents of the destination buffer:
  the source, the dimensions of both grids and the length of the buffer are unchanged.
\<close>

theorem only_destination_data_changes:
  assumes "same_size st" "admissible sch (full_range st)"
  shows "\<exists>st'. grayscaleConversion sch st = Inr st' \<and>
           input_mat st' = input_mat st \<and>
           rows (output_mat st') = rows (output_mat st) \<and>
           cols (output_mat st') = cols (output_mat st) \<and>
           length (data (output_mat st')) = length (data (output_mat st)) \<and>
           st' = st\<lparr>output_mat := (output_mat st)\<lparr>data := data (output_mat st')\<rparr>\<rparr>"
proof -
  have "length (data (input_mat st)) = length (data (output_mat st))"
    using assms(1) by (simp add: same_size_def allocated_def)
  thus ?thesis
    using conversion_same_size [OF assms] by (simp add: converted_def)
qed

theorem only_destination_data_changes_witness:
  "same_size example_state \<and> admissible example_schedule (full_range example_state) \<and>
   (\<exists>st'. grayscaleConversion example_schedule example_state = Inr st' \<and>
      input_mat st' = input_mat example_state \<and>
      rows (output_mat st') = rows (output_mat example_state) \<and>
      cols (output_mat st') = cols (output_mat example_state) \<and>
      length (data (output_mat st')) = length (data (output_mat example_state)) \<and>
      st' = example_state\<lparr>output_mat :=
              (output_mat example_state)\<lparr>data := data (output_mat st')\<rparr>\<rparr>)"
proof -
  have h1: "same_size example_state" by code_simp
  have h2: "admissible example_schedule (full_range example_state)" by code_simp
  show ?thesis
    using h1 h2 only_destination_data_changes [OF h1 h2] by blast
qed





end
